theory Spec2Isabelle
  imports Main "HOL-Library.Word"
begin

unbundle bit_operations_syntax

section \<open>Data model of the two character devices\<close>

text \<open>
  \<^verbatim>\<open>encode.c\<close> and \<^verbatim>\<open>decode.c\<close> each keep the same file-scope variables:
  \<^verbatim>\<open>message[]\<close> (769 bytes in the encoder, 256 in the decoder), \<^verbatim>\<open>temp[]\<close>
  (256 bytes in the encoder, 769 in the decoder), \<^verbatim>\<open>short messageSize\<close> and
  \<^verbatim>\<open>int numberOpens\<close>.  A \<^verbatim>\<open>char\<close> is an 8-bit word.  The two arrays are lists whose
  length is the declared array size; every indexed access of the source is checked against
  that length in the model and an access outside it is the fault value, never an unspecified
  \<open>xs ! i\<close>.

  \<^verbatim>\<open>messageSize\<close> and the loop counter \<^verbatim>\<open>i\<close> are \<^verbatim>\<open>short\<close> in the source.  They are
  natural numbers here: the loops fault at the first index outside \<^verbatim>\<open>temp[]\<close> (at most 769),
  so neither ever comes near \<open>2 ^ 15\<close> before the model has already stopped.
\<close>

type_synonym byte = "8 word"

datatype fault = TempOutOfBounds | MessageOutOfBounds

record device =
  message :: "byte list"
  temp :: "byte list"
  messageSize :: nat
  numberOpens :: "32 word"

text \<open>Static storage is zero-initialised (\<^verbatim>\<open>= {0}\<close>, and \<^verbatim>\<open>messageSize\<close> has no initialiser).\<close>

definition enc_init :: device where
  "enc_init = \<lparr>message = replicate 769 0, temp = replicate 256 0, messageSize = 0, numberOpens = 0\<rparr>"

definition dec_init :: device where
  "dec_init = \<lparr>message = replicate 256 0, temp = replicate 769 0, messageSize = 0, numberOpens = 0\<rparr>"

section \<open>open, release and read (the same code in both files)\<close>

definition dev_open :: "device \<Rightarrow> int \<times> device" where
  "dev_open s = (0, s\<lparr>numberOpens := numberOpens s + 1\<rparr>)"

definition dev_release :: "device \<Rightarrow> int \<times> device" where
  "dev_release s = (0, s)"

text \<open>
  \<^verbatim>\<open>copy_to_user(to, from, n)\<close> is the kernel's: it copies as many of the \<open>n\<close> bytes as the
  destination accepts and returns the number of bytes it could not copy.  The destination is
  represented by the number of bytes of it that are writable.  The result is the bytes that
  reached the user and the count that did not.
\<close>

definition copy_to_user :: "nat \<Rightarrow> byte list \<Rightarrow> nat \<Rightarrow> byte list \<times> nat" where
  "copy_to_user writable src n = (take (min n writable) src, n - min n writable)"

definition EFAULT :: int where
  "EFAULT = 14"

text \<open>
  \<^verbatim>\<open>dev_read\<close>: the \<^verbatim>\<open>len\<close> argument is not used by the source (it always copies
  \<^verbatim>\<open>messageSize\<close> bytes), so the model does not take it.  The result is the return value, the
  bytes delivered to the caller and the new device state.
\<close>

definition dev_read :: "device \<Rightarrow> nat \<Rightarrow> int \<times> byte list \<times> device" where
  "dev_read s writable =
     (let (delivered, error_count) = copy_to_user writable (message s) (messageSize s);
          sendLength = int (messageSize s);
          s' = s\<lparr>messageSize := 0\<rparr>
      in if error_count = 0 then (sendLength, delivered, s')
         else (- EFAULT, delivered, s'))"

section \<open>write\<close>

text \<open>
  \<^verbatim>\<open>copy_from_user(temp, buffer, len)\<close> places \<open>len\<close> bytes at the front of \<^verbatim>\<open>temp[]\<close> and
  leaves the cells behind them as they were; its return value is ignored by the source.
  The list \<open>buffer\<close> of a write is the bytes that land in \<^verbatim>\<open>temp[]\<close>, and its length is the
  \<^verbatim>\<open>len\<close> argument of the call.
\<close>

definition copy_from_user :: "byte list \<Rightarrow> byte list \<Rightarrow> nat \<Rightarrow> byte list" where
  "copy_from_user tmp buffer len = take len buffer @ drop len tmp"

text \<open>
  \<^verbatim>\<open>temp[len-1]='\0'\<close>: \<^verbatim>\<open>len\<close> is a \<^verbatim>\<open>size_t\<close>, so \<^verbatim>\<open>len-1\<close> wraps around when
  \<^verbatim>\<open>len\<close> is 0 (written out here for a 64-bit \<^verbatim>\<open>size_t\<close>; a 32-bit one behaves alike, both
  wrapped values are far beyond the arrays).
\<close>

definition force_terminator :: "byte list \<Rightarrow> nat \<Rightarrow> fault + byte list" where
  "force_terminator tmp len =
     (let idx = (int len - 1) mod 2 ^ 64
      in if idx < int (length tmp) then Inr (tmp[nat idx := 0]) else Inl TempOutOfBounds)"

text \<open>
  The part of \<^verbatim>\<open>dev_write\<close> before the scan loop, with the clamp of \<^verbatim>\<open>len\<close> to \<open>bound\<close>
  (256 in \<^verbatim>\<open>encode.c\<close>, \<^verbatim>\<open>IN_BUFF_SIZE\<close> = 769 in \<^verbatim>\<open>decode.c\<close>).  It gives the clamped length
  and the contents of \<^verbatim>\<open>temp[]\<close> the loop will scan.
\<close>

definition fill_temp :: "nat \<Rightarrow> byte list \<Rightarrow> byte list \<Rightarrow> fault + (nat \<times> byte list)" where
  "fill_temp bound tmp buffer =
     (let len = (if length buffer > bound then bound else length buffer)
      in if length tmp < len then Inl TempOutOfBounds
         else (case force_terminator (copy_from_user tmp buffer len) len of
                 Inl e \<Rightarrow> Inl e
               | Inr tmp' \<Rightarrow> Inr (len, tmp')))"

subsection \<open>encode.c\<close>

text \<open>
  \<^verbatim>\<open>while(temp[i]){ message[3*i+2]=message[3*i+1]=message[3*i]=temp[i]; i++; }\<close>
\<close>

function enc_loop :: "byte list \<Rightarrow> byte list \<Rightarrow> nat \<Rightarrow> fault + (byte list \<times> nat)" where
  "enc_loop tmp msg i =
     (if i < length tmp then
        (if tmp ! i = 0 then Inr (msg, i)
         else if 3 * i + 2 < length msg
              then enc_loop tmp (msg[3 * i := tmp ! i, 3 * i + 1 := tmp ! i, 3 * i + 2 := tmp ! i]) (i + 1)
              else Inl MessageOutOfBounds)
      else Inl TempOutOfBounds)"
  by pat_completeness auto
termination
  by (relation "measure (\<lambda>(tmp, msg, i). length tmp - i)") auto

declare enc_loop.simps [simp del]

definition enc_dev_write :: "device \<Rightarrow> byte list \<Rightarrow> fault + (nat \<times> device)" where
  "enc_dev_write s buffer =
     (case fill_temp 256 (temp s) buffer of
        Inl e \<Rightarrow> Inl e
      | Inr (len, tmp) \<Rightarrow>
          (case enc_loop tmp (message s) 0 of
             Inl e \<Rightarrow> Inl e
           | Inr (msg, i) \<Rightarrow>
               if 3 * i < length msg
               then Inr (len, s\<lparr>message := msg[3 * i := 0], temp := tmp, messageSize := i * 3 + 1\<rparr>)
               else Inl MessageOutOfBounds))"

subsection \<open>decode.c\<close>

text \<open>
  The vote as the source writes it.  The operands are \<^verbatim>\<open>char\<close>, promoted to \<^verbatim>\<open>int\<close> and
  the result cut back to a \<^verbatim>\<open>char\<close> by the store; the bitwise operations act on each bit
  position alone, so the low eight bits are those of the same expression on bytes.
\<close>

definition vote :: "byte \<Rightarrow> byte \<Rightarrow> byte \<Rightarrow> byte" where
  "vote first second third =
     (first AND second AND third) OR (NOT first AND second AND third)
       OR (first AND NOT second AND third) OR (first AND second AND NOT third)"

function dec_loop :: "byte list \<Rightarrow> byte list \<Rightarrow> nat \<Rightarrow> fault + (byte list \<times> nat)" where
  "dec_loop tmp msg i =
     (if i < length tmp then
        (if tmp ! i = 0 then Inr (msg, i)
         else if i + 2 < length tmp then
           (if i div 3 < length msg
            then dec_loop tmp (msg[i div 3 := vote (tmp ! i) (tmp ! (i + 1)) (tmp ! (i + 2))]) (i + 3)
            else Inl MessageOutOfBounds)
         else Inl TempOutOfBounds)
      else Inl TempOutOfBounds)"
  by pat_completeness auto
termination
  by (relation "measure (\<lambda>(tmp, msg, i). length tmp - i)") auto

declare dec_loop.simps [simp del]

definition dec_dev_write :: "device \<Rightarrow> byte list \<Rightarrow> fault + (nat \<times> device)" where
  "dec_dev_write s buffer =
     (case fill_temp 769 (temp s) buffer of
        Inl e \<Rightarrow> Inl e
      | Inr (len, tmp) \<Rightarrow>
          (case dec_loop tmp (message s) 0 of
             Inl e \<Rightarrow> Inl e
           | Inr (msg, i) \<Rightarrow> Inr (len, s\<lparr>message := msg, temp := tmp, messageSize := i div 3\<rparr>)))"

section \<open>Sequences of calls and the write-then-read pipeline\<close>

text \<open>
  A user process drives a device through \<^verbatim>\<open>open\<close>, \<^verbatim>\<open>read\<close>, \<^verbatim>\<open>write\<close> and
  \<^verbatim>\<open>release\<close>.  \<open>dev_call\<close> takes the device's own \<^verbatim>\<open>dev_write\<close>; a run stops at the
  first fault.
\<close>

datatype call = Open | Read nat | Write "byte list" | Release

fun is_write :: "call \<Rightarrow> bool" where
  "is_write (Write buffer) = True"
| "is_write c = False"

fun dev_call :: "(device \<Rightarrow> byte list \<Rightarrow> fault + (nat \<times> device)) \<Rightarrow> device \<Rightarrow> call \<Rightarrow> fault + device" where
  "dev_call wr s Open = Inr (snd (dev_open s))"
| "dev_call wr s (Read writable) = Inr (snd (snd (dev_read s writable)))"
| "dev_call wr s (Write buffer) = (case wr s buffer of Inl e \<Rightarrow> Inl e | Inr (n, s') \<Rightarrow> Inr s')"
| "dev_call wr s Release = Inr (snd (dev_release s))"

fun dev_calls :: "(device \<Rightarrow> byte list \<Rightarrow> fault + (nat \<times> device)) \<Rightarrow> device \<Rightarrow> call list \<Rightarrow> fault + device" where
  "dev_calls wr s [] = Inr s"
| "dev_calls wr s (c # cs) = (case dev_call wr s c of Inl e \<Rightarrow> Inl e | Inr s' \<Rightarrow> dev_calls wr s' cs)"

text \<open>What a read into a destination that takes every pending byte delivers.\<close>

definition read_all :: "device \<Rightarrow> byte list" where
  "read_all s = fst (snd (dev_read s (messageSize s)))"

text \<open>One write to the encoder followed by one read; the same for the decoder.\<close>

definition encode :: "device \<Rightarrow> byte list \<Rightarrow> fault + byte list" where
  "encode s x = (case enc_dev_write s x of Inl e \<Rightarrow> Inl e | Inr (n, s') \<Rightarrow> Inr (read_all s'))"

definition decode :: "device \<Rightarrow> byte list \<Rightarrow> fault + byte list" where
  "decode s y = (case dec_dev_write s y of Inl e \<Rightarrow> Inl e | Inr (n, s') \<Rightarrow> Inr (read_all s'))"

definition roundtrip :: "device \<Rightarrow> device \<Rightarrow> byte list \<Rightarrow> fault + byte list" where
  "roundtrip es ds x = (case encode es x of Inl e \<Rightarrow> Inl e | Inr y \<Rightarrow> decode ds y)"

text \<open>The declared array sizes, and the last cell of \<^verbatim>\<open>temp[]\<close> being zero.\<close>

definition enc_sized :: "device \<Rightarrow> bool" where
  "enc_sized s = (length (temp s) = 256 \<and> length (message s) = 769)"

definition dec_sized :: "device \<Rightarrow> bool" where
  "dec_sized s = (length (temp s) = 769 \<and> length (message s) = 256)"

definition enc_inv :: "device \<Rightarrow> bool" where
  "enc_inv s = (enc_sized s \<and> temp s ! 255 = 0)"

definition dec_inv :: "device \<Rightarrow> bool" where
  "dec_inv s = (dec_sized s \<and> temp s ! 768 = 0)"

section \<open>The transforms as list functions\<close>

fun triple :: "byte list \<Rightarrow> byte list" where
  "triple [] = []"
| "triple (b # bs) = b # b # b # triple bs"

fun votes :: "byte list \<Rightarrow> byte list" where
  "votes (a # b # c # r) = vote a b c # votes r"
| "votes r = []"

fun starts_nonzero :: "byte list \<Rightarrow> bool" where
  "starts_nonzero (a # b # c # r) = (a \<noteq> 0 \<and> starts_nonzero r)"
| "starts_nonzero [] = True"
| "starts_nonzero r = False"

text \<open>
  The prefix of a received buffer the decoder's loop consumes: whole triplets, up to the
  first one that starts with a zero byte.
\<close>

fun live :: "byte list \<Rightarrow> byte list" where
  "live (a # b # c # r) = (if a = 0 then [] else a # b # c # live r)"
| "live r = []"

text \<open>
  What one pass of the decoder's loop body leaves behind for the triplet at cells \<open>3k\<close>,
  \<open>3k + 1\<close>, \<open>3k + 2\<close> of \<^verbatim>\<open>temp[]\<close>: the three cells exist, the first is non-zero, and
  cell \<open>k\<close> of \<^verbatim>\<open>message[]\<close> holds their vote.
\<close>

definition stores_vote :: "byte list \<Rightarrow> byte list \<Rightarrow> nat \<Rightarrow> bool" where
  "stores_vote tmp m k =
     (3 * k + 2 < length tmp \<and> k < length m \<and> tmp ! (3 * k) \<noteq> 0
      \<and> m ! k = vote (tmp ! (3 * k)) (tmp ! (3 * k + 1)) (tmp ! (3 * k + 2)))"

definition majority :: "bool \<Rightarrow> bool \<Rightarrow> bool \<Rightarrow> bool" where
  "majority p q r = ((p \<and> q) \<or> (q \<and> r) \<or> (p \<and> r))"

section \<open>The bitwise vote\<close>

text \<open>
  The four-term expression is the three-term one, bit by bit the majority.  The last two
  lemmas carry the expression through C's integer promotion, for a signed and for an
  unsigned \<^verbatim>\<open>char\<close>: widened to 32 bits, evaluated there and cut back to a byte, it is
  \<open>vote\<close>.
\<close>

lemma vote_three_term: "vote a b c = (a AND b) OR (b AND c) OR (a AND c)"
  unfolding vote_def by (rule bit_eqI) (auto simp add: bit_simps)

lemma bit_vote: "bit (vote a b c) k = majority (bit a k) (bit b k) (bit c k)"
  unfolding vote_three_term majority_def by (auto simp add: bit_simps)

lemma vote_promoted_signed:
  "(ucast ((scast a AND scast b AND scast c) OR (NOT (scast a) AND scast b AND scast c)
       OR (scast a AND NOT (scast b) AND scast c) OR (scast a AND scast b AND NOT (scast c)) :: 32 word) :: byte)
     = vote a b c"
  unfolding vote_def by (rule bit_eqI) (auto simp add: bit_simps)

lemma vote_promoted_unsigned:
  "(ucast ((ucast a AND ucast b AND ucast c) OR (NOT (ucast a) AND ucast b AND ucast c)
       OR (ucast a AND NOT (ucast b) AND ucast c) OR (ucast a AND ucast b AND NOT (ucast c)) :: 32 word) :: byte)
     = vote a b c"
  unfolding vote_def by (rule bit_eqI) (auto simp add: bit_simps)

section \<open>The encoder's scan loop\<close>

text \<open>
  Started at the end of \<open>pre\<close> on a \<^verbatim>\<open>temp[]\<close> that continues with non-zero bytes \<open>p\<close> and
  then a zero, the loop replaces the matching stretch of \<^verbatim>\<open>message[]\<close> by the triplication
  of \<open>p\<close> and stops on the zero.
\<close>

lemma enc_loop_append:
  "\<forall>b\<in>set p. b \<noteq> 0 \<Longrightarrow> length mpre = 3 * length pre \<Longrightarrow> length mid = 3 * length p \<Longrightarrow>
   enc_loop (pre @ p @ 0 # rest) (mpre @ mid @ mpost) (length pre)
     = Inr (mpre @ triple p @ mpost, length pre + length p)"
proof (induction p arbitrary: pre mpre mid)
  case Nil
  then show ?case by (subst enc_loop.simps) simp
next
  case (Cons b p)
  from Cons.prems(3) obtain m0 m1 m2 mid' where mid: "mid = m0 # m1 # m2 # mid'" and len': "length mid' = 3 * length p"
    by (cases mid; simp; cases "tl mid"; simp; cases "tl (tl mid)"; simp) 
  have b: "b \<noteq> 0" and p: "\<forall>b\<in>set p. b \<noteq> 0" using Cons.prems(1) by simp_all
  have upd: "(mpre @ mid @ mpost)[3 * length pre := b, 3 * length pre + 1 := b, 3 * length pre + 2 := b]
      = (mpre @ [b, b, b]) @ mid' @ mpost"
    using Cons.prems(2) by (simp add: mid list_update_append)
  have ih: "enc_loop ((pre @ [b]) @ p @ 0 # rest) ((mpre @ [b, b, b]) @ mid' @ mpost) (length (pre @ [b]))
      = Inr ((mpre @ [b, b, b]) @ triple p @ mpost, length (pre @ [b]) + length p)"
    by (rule Cons.IH [OF p _ len']) (simp add: Cons.prems(2))
  show ?case
    apply (subst enc_loop.simps)
    using b Cons.prems(2) ih
    apply (simp add: nth_append mid upd [simplified mid, simplified])
    done
qed

section \<open>The decoder's scan loop\<close>

text \<open>
  The same for the decoder: over whole triplets \<open>g\<close> that each start with a non-zero byte,
  followed by a zero, the loop stores the vote of each triplet and stops on the zero.
\<close>

lemma dec_loop_append:
  "starts_nonzero g \<Longrightarrow> length pre = 3 * length mpre \<Longrightarrow> 3 * length mid = length g \<Longrightarrow>
   dec_loop (pre @ g @ 0 # rest) (mpre @ mid @ mpost) (length pre)
     = Inr (mpre @ votes g @ mpost, length pre + length g)"
proof (induction g arbitrary: pre mpre mid rule: starts_nonzero.induct)
  case (1 a b c r)
  from "1.prems"(3) obtain m0 mid' where mid: "mid = m0 # mid'" and len': "3 * length mid' = length r"
    by (cases mid) simp_all
  have a: "a \<noteq> 0" and r: "starts_nonzero r" using "1.prems"(1) by simp_all
  have idx: "length pre div 3 = length mpre" using "1.prems"(2) by simp
  have l3: "length (pre @ [a, b, c]) = length pre + 3" by simp
  have pre3: "length (pre @ [a, b, c]) = 3 * length (mpre @ [vote a b c])"
    using "1.prems"(2) by simp
  have step: "dec_loop (pre @ (a # b # c # r) @ 0 # rest) (mpre @ mid @ mpost) (length pre)
      = dec_loop ((pre @ [a, b, c]) @ r @ 0 # rest) ((mpre @ [vote a b c]) @ mid' @ mpost) (length pre + 3)"
    by (subst dec_loop.simps) (simp add: a nth_append idx mid)
  show ?case
    unfolding step "1.IH" [OF r pre3 len', unfolded l3] by simp
next
  case 2
  from "2.prems"(3) have "mid = []" by simp
  then show ?case by (subst dec_loop.simps) simp
qed simp_all


lemma force_terminator_last:
  "b \<noteq> [] \<Longrightarrow> length b \<le> 769 \<Longrightarrow>
   force_terminator (b @ d) (length b) = Inr (butlast b @ 0 # d)"
proof -
  assume b: "b \<noteq> []" and le: "length b \<le> 769"
  then have idx: "(int (length b) - 1) mod 2 ^ 64 = int (length b - 1)"
    by (cases b) simp_all
  have upd: "(b @ d)[length b - 1 := 0] = butlast b @ 0 # d"
    using b by (cases b rule: rev_cases) simp_all
  have lt: "length b - 1 < length (b @ d)"
    using b by (cases b) simp_all
  show ?thesis
    unfolding force_terminator_def Let_def idx
    using lt upd by (simp only: of_nat_less_iff nat_int if_True)
qed

section \<open>Whole writes\<close>

text \<open>
  A non-empty write leaves in \<^verbatim>\<open>temp[]\<close> the written bytes without the last one, a zero in
  its place, and the old contents behind.  From there the two loop lemmas give the state
  after \<^verbatim>\<open>dev_write\<close> in closed form.
\<close>

lemma fill_temp_eq:
  assumes "buffer \<noteq> []" and "bound \<le> length tmp" and "0 < bound" and "bound \<le> 769"
  shows "fill_temp bound tmp buffer =
           Inr (length (take bound buffer),
                butlast (take bound buffer) @ 0 # drop (length (take bound buffer)) tmp)"
proof -
  let ?b = "take bound buffer"
  have ne: "?b \<noteq> []" using assms(1,3) by (cases buffer) simp_all
  have le: "length ?b \<le> 769" using assms(4) by simp
  have len: "(if length buffer > bound then bound else length buffer) = length ?b"
    by (simp add: min_def)
  have cp: "copy_from_user tmp buffer (length ?b) = ?b @ drop (length ?b) tmp"
    by (simp add: copy_from_user_def min_def)
  show ?thesis
    unfolding fill_temp_def len Let_def cp force_terminator_last [OF ne le]
    using assms(2) by simp
qed

lemma length_triple: "length (triple p) = 3 * length p"
  by (induction p) simp_all

lemma split_at_zero: "\<exists>r. ys @ (0::byte) # d = takeWhile (\<lambda>b. b \<noteq> 0) ys @ 0 # r"
  by (induction ys) auto

lemma read_all_eq: "read_all s = take (messageSize s) (message s)"
  by (simp add: read_all_def dev_read_def copy_to_user_def)

lemma enc_dev_write_eq:
  assumes sized: "enc_sized s" and ne: "buffer \<noteq> []"
  shows "enc_dev_write s buffer =
     Inr (length (take 256 buffer),
          s\<lparr>message := triple (takeWhile (\<lambda>b. b \<noteq> 0) (butlast (take 256 buffer))) @ 0 #
                 drop (3 * length (takeWhile (\<lambda>b. b \<noteq> 0) (butlast (take 256 buffer))) + 1) (message s),
            temp := butlast (take 256 buffer) @ 0 # drop (length (take 256 buffer)) (temp s),
            messageSize := length (takeWhile (\<lambda>b. b \<noteq> 0) (butlast (take 256 buffer))) * 3 + 1\<rparr>)"
proof -
  let ?b = "take 256 buffer"
  let ?p = "takeWhile (\<lambda>b. b \<noteq> 0) (butlast ?b)"
  let ?d = "drop (length ?b) (temp s)"
  let ?m = "message s"
  have lt: "length (temp s) = 256" and lm: "length ?m = 769"
    using sized by (simp_all add: enc_sized_def)
  have fill: "fill_temp 256 (temp s) buffer = Inr (length ?b, butlast ?b @ 0 # ?d)"
    by (rule fill_temp_eq) (simp_all add: ne lt)
  obtain r where r: "butlast ?b @ 0 # ?d = ?p @ 0 # r"
    using split_at_zero by blast
  have "length ?p \<le> length (butlast ?b)" by (rule length_takeWhile_le)
  then have lp: "length ?p \<le> 255" by simp
  have nz: "\<forall>b\<in>set ?p. b \<noteq> 0" by (auto dest: set_takeWhileD)
  have loop: "enc_loop ([] @ ?p @ 0 # r) ([] @ take (3 * length ?p) ?m @ drop (3 * length ?p) ?m) (length ([]::byte list))
      = Inr ([] @ triple ?p @ drop (3 * length ?p) ?m, length ([]::byte list) + length ?p)"
    by (rule enc_loop_append [OF nz]) (use lp lm in simp_all)
  have loop': "enc_loop (butlast ?b @ 0 # ?d) ?m 0 = Inr (triple ?p @ drop (3 * length ?p) ?m, length ?p)"
    unfolding r using loop by simp
  have upd: "(triple ?p @ drop (3 * length ?p) ?m)[3 * length ?p := 0] = triple ?p @ 0 # drop (3 * length ?p + 1) ?m"
  proof -
    have d: "drop (3 * length ?p) ?m = ?m ! (3 * length ?p) # drop (3 * length ?p + 1) ?m"
      using Cons_nth_drop_Suc [of "3 * length ?p" ?m] lp lm by simp
    show ?thesis
      unfolding d by (simp add: list_update_append length_triple)
  qed
  show ?thesis
    unfolding enc_dev_write_def fill sum.case prod.case loop' upd using lp lm
    by (simp add: length_triple)
qed

lemma starts_nonzero_live: "starts_nonzero (live g)"
  by (induction g rule: live.induct) simp_all

lemma length_votes: "starts_nonzero g \<Longrightarrow> 3 * length (votes g) = length g"
  by (induction g rule: starts_nonzero.induct) simp_all

lemma dec_scan_eq:
  assumes lm: "length msg = 256" and g: "starts_nonzero g" and le: "length g \<le> 768"
  shows "dec_loop (g @ 0 # r) msg 0 = Inr (votes g @ drop (length (votes g)) msg, length g)"
proof -
  have lv: "3 * length (votes g) = length g" by (rule length_votes [OF g])
  have "dec_loop ([] @ g @ 0 # r) ([] @ take (length (votes g)) msg @ drop (length (votes g)) msg) (length ([]::byte list))
      = Inr ([] @ votes g @ drop (length (votes g)) msg, length ([]::byte list) + length g)"
    by (rule dec_loop_append [OF g]) (use lv le lm in simp_all)
  then show ?thesis by simp
qed

lemma decode_eq:
  assumes sized: "dec_sized s" and ne: "y \<noteq> []" and tmp: "butlast (take 769 y) = g @ r"
    and g: "starts_nonzero g" and r: "r = [] \<or> hd r = 0"
  shows "decode s y = Inr (votes g)"
proof -
  let ?b = "take 769 y"
  let ?d = "drop (length ?b) (temp s)"
  have lt: "length (temp s) = 769" and lm: "length (message s) = 256"
    using sized by (simp_all add: dec_sized_def)
  have fill: "fill_temp 769 (temp s) y = Inr (length ?b, butlast ?b @ 0 # ?d)"
    by (rule fill_temp_eq) (simp_all add: ne lt)
  obtain r' where r': "butlast ?b @ 0 # ?d = g @ 0 # r'"
    using r unfolding tmp by (cases r) auto
  have "length (g @ r) \<le> 768" unfolding tmp [symmetric] by simp
  then have le: "length g \<le> 768" by simp
  have lv: "3 * length (votes g) = length g" by (rule length_votes [OF g])
  have loop: "dec_loop (butlast ?b @ 0 # ?d) (message s) 0
      = Inr (votes g @ drop (length (votes g)) (message s), length g)"
    unfolding r' by (rule dec_scan_eq [OF lm g le])
  have dv: "length g div 3 = length (votes g)" using lv by simp
  show ?thesis
    unfolding decode_def dec_dev_write_def fill sum.case prod.case loop read_all_eq dv
    by simp
qed

lemma vote_same [simp]: "vote a a a = a" "vote v a a = a" "vote a v a = a" "vote a a v = a"
  unfolding vote_three_term by (rule bit_eqI; auto simp add: bit_simps)+

lemma votes_triple [simp]: "votes (triple p) = p"
  by (induction p) simp_all

lemma starts_nonzero_triple: "\<forall>b\<in>set p. b \<noteq> 0 \<Longrightarrow> starts_nonzero (triple p)"
  by (induction p) simp_all

lemma encode_eq:
  assumes "enc_sized s" and "x \<noteq> []"
  shows "encode s x = Inr (triple (takeWhile (\<lambda>b. b \<noteq> 0) (butlast (take 256 x))) @ [0])"
  unfolding encode_def enc_dev_write_eq [OF assms] sum.case prod.case read_all_eq
  by (simp add: length_triple)

lemma roundtrip_eq:
  assumes es: "enc_sized es" and ds: "dec_sized ds" and ne: "x \<noteq> []"
  shows "roundtrip es ds x = Inr (takeWhile (\<lambda>b. b \<noteq> 0) (butlast (take 256 x)))"
proof -
  let ?p = "takeWhile (\<lambda>b. b \<noteq> 0) (butlast (take 256 x))"
  have "length ?p \<le> length (butlast (take 256 x))" by (rule length_takeWhile_le)
  then have lp: "length ?p \<le> 255" by simp
  have nz: "\<forall>b\<in>set ?p. b \<noteq> 0" by (auto dest: set_takeWhileD)
  have tk: "butlast (take 769 (triple ?p @ [0])) = triple ?p @ []"
    using lp by (simp add: length_triple)
  have "decode ds (triple ?p @ [0]) = Inr (votes (triple ?p))"
    by (rule decode_eq [OF ds _ tk starts_nonzero_triple [OF nz]]) simp_all
  then show ?thesis
    unfolding roundtrip_def encode_eq [OF es ne] sum.case by simp
qed

section \<open>One corrupted copy\<close>

lemma votes_corrupt: "j < length p \<Longrightarrow> c < 3 \<Longrightarrow> votes ((triple p)[3 * j + c := v]) = p"
proof (induction p arbitrary: j)
  case Nil
  then show ?case by simp
next
  case (Cons a p)
  show ?case
  proof (cases j)
    case 0
    from \<open>c < 3\<close> consider "c = 0" | "c = Suc 0" | "c = Suc (Suc 0)" by linarith
    then show ?thesis using 0 by cases simp_all
  next
    case (Suc j')
    then have "j' < length p" using Cons.prems(1) by simp
    then have ih: "votes ((triple p)[3 * j' + c := v]) = p" using Cons.prems(2) by (rule Cons.IH)
    have eq: "3 * j + c = Suc (Suc (Suc (3 * j' + c)))" using Suc by simp
    show ?thesis unfolding eq using ih by simp
  qed
qed

lemma starts_nonzero_corrupt:
  "\<forall>b\<in>set p. b \<noteq> 0 \<Longrightarrow> j < length p \<Longrightarrow> c < 3 \<Longrightarrow> (c = 0 \<longrightarrow> v \<noteq> 0) \<Longrightarrow>
   starts_nonzero ((triple p)[3 * j + c := v])"
proof (induction p arbitrary: j)
  case Nil
  then show ?case by simp
next
  case (Cons a p)
  have nz: "\<forall>b\<in>set p. b \<noteq> 0" and a: "a \<noteq> 0" using Cons.prems(1) by simp_all
  show ?case
  proof (cases j)
    case 0
    from \<open>c < 3\<close> consider "c = 0" | "c = Suc 0" | "c = Suc (Suc 0)" by linarith
    then show ?thesis using 0 a Cons.prems(4) starts_nonzero_triple [OF nz]
      by cases simp_all
  next
    case (Suc j')
    then have "j' < length p" using Cons.prems(2) by simp
    then have ih: "starts_nonzero ((triple p)[3 * j' + c := v])"
      using Cons.prems(3,4) by (intro Cons.IH [OF nz])
    have eq: "3 * j + c = Suc (Suc (Suc (3 * j' + c)))" using Suc by simp
    show ?thesis unfolding eq using ih a by simp
  qed
qed


section \<open>Reads\<close>

lemma read_empty: "messageSize s = 0 \<Longrightarrow> dev_read s w = (0, [], s)"
  by (simp add: dev_read_def copy_to_user_def)

lemma read_clears: "messageSize (snd (snd (dev_read s w))) = 0"
  by (simp add: dev_read_def copy_to_user_def Let_def)

lemma no_write_keeps_empty:
  "messageSize s = 0 \<Longrightarrow> \<forall>c\<in>set cs. \<not> is_write c \<Longrightarrow>
   \<exists>s'. dev_calls wr s cs = Inr s' \<and> messageSize s' = 0"
proof (induction cs arbitrary: s)
  case Nil
  then show ?case by simp
next
  case (Cons c cs)
  from Cons.prems(2) have c: "\<not> is_write c" and cs: "\<forall>c\<in>set cs. \<not> is_write c" by simp_all
  from c obtain s1 where s1: "dev_call wr s c = Inr s1" and m1: "messageSize s1 = 0"
    using Cons.prems(1) by (cases c) (simp_all add: dev_open_def dev_release_def read_clears)
  from Cons.IH [OF m1 cs] show ?case by (simp add: s1)
qed

section \<open>Bounds kept by every write\<close>

lemma fill_last_cell:
  assumes "length tmp = N" and "tmp ! (N - 1) = 0" and "b \<noteq> []" and "length b \<le> N"
  shows "length (butlast b @ 0 # drop (length b) tmp) = N
       \<and> (butlast b @ 0 # drop (length b) tmp) ! (N - 1) = (0 :: byte)"
proof -
  have pos: "0 < length b" using assms(3) by simp
  have "length (butlast b @ 0 # drop (length b) tmp) = length b - 1 + 1 + (N - length b)"
    by (simp add: assms(1))
  also have "\<dots> = N" using assms(4) pos by arith
  finally have len: "length (butlast b @ 0 # drop (length b) tmp) = N" .
  have cell: "(butlast b @ 0 # drop (length b) tmp) ! (N - 1) = 0"
  proof (cases "length b = N")
    case True
    then have "N - 1 = length (butlast b)" by simp
    then show ?thesis by (simp only: nth_append_length)
  next
    case False
    with assms(4) have lt: "length b < N" by simp
    have k: "N - 1 = length (butlast b) + (N - length b)"
      using lt pos by (simp only: length_butlast)
    have "(butlast b @ 0 # drop (length b) tmp) ! (N - 1)
        = (0 # drop (length b) tmp) ! (N - length b)"
      by (simp only: k nth_append_length_plus)
    also have "\<dots> = drop (length b) tmp ! (N - length b - 1)"
      using lt by (simp add: nth_Cons')
    also have "\<dots> = tmp ! (N - 1)"
      using lt assms(1) by simp
    finally show ?thesis using assms(2) by simp
  qed
  show ?thesis using len cell by (rule conjI)
qed

lemma enc_scan_ok:
  assumes "length msg = 769" and "length b \<le> 256" and "b \<noteq> []"
  shows "\<exists>m i. enc_loop (butlast b @ 0 # d) msg 0 = Inr (m, i) \<and> i \<le> 255 \<and> length m = 769"
proof -
  let ?p = "takeWhile (\<lambda>b. b \<noteq> 0) (butlast b)"
  obtain r where r: "butlast b @ 0 # d = ?p @ 0 # r"
    using split_at_zero by blast
  have "length ?p \<le> length (butlast b)" by (rule length_takeWhile_le)
  then have lp: "length ?p \<le> 255" using assms(2) by simp
  have nz: "\<forall>b\<in>set ?p. b \<noteq> 0" by (auto dest: set_takeWhileD)
  have "enc_loop ([] @ ?p @ 0 # r) ([] @ take (3 * length ?p) msg @ drop (3 * length ?p) msg) (length ([]::byte list))
      = Inr ([] @ triple ?p @ drop (3 * length ?p) msg, length ([]::byte list) + length ?p)"
    by (rule enc_loop_append [OF nz]) (use lp assms(1) in simp_all)
  then have "enc_loop (butlast b @ 0 # d) msg 0 = Inr (triple ?p @ drop (3 * length ?p) msg, length ?p)"
    unfolding r by simp
  moreover have "length (triple ?p @ drop (3 * length ?p) msg) = 769"
    using lp assms(1) by (simp add: length_triple)
  ultimately show ?thesis using lp by blast
qed

lemma dec_loop_ok:
  "length tmp = 769 \<Longrightarrow> tmp ! 768 = 0 \<Longrightarrow> length msg = 256 \<Longrightarrow> i \<le> 768 \<Longrightarrow> 3 dvd i \<Longrightarrow>
   \<exists>m j. dec_loop tmp msg i = Inr (m, j) \<and> j \<le> 768 \<and> length m = 256"
proof (induction tmp msg i rule: dec_loop.induct)
  case (1 tmp msg i)
  show ?case
  proof (cases "tmp ! i = 0")
    case True
    then show ?thesis using "1.prems" by (subst dec_loop.simps) simp
  next
    case False
    then have "i \<noteq> 768" using "1.prems"(2) by auto
    with "1.prems"(4,5) have i3: "i + 3 \<le> 768" and d3: "3 dvd i + 3" by presburger+
    have b1: "i < length tmp" and b2: "i + 2 < length tmp" and b3: "i div 3 < length msg"
      using i3 "1.prems"(1,3) by simp_all
    let ?msg = "msg[i div 3 := vote (tmp ! i) (tmp ! (i + 1)) (tmp ! (i + 2))]"
    have lm: "length ?msg = 256" using "1.prems"(3) by simp
    have "\<exists>m j. dec_loop tmp ?msg (i + 3) = Inr (m, j) \<and> j \<le> 768 \<and> length m = 256"
      by (rule "1.IH" [OF b1 False b2 b3 "1.prems"(1,2) lm i3 d3])
    moreover have "dec_loop tmp msg i = dec_loop tmp ?msg (i + 3)"
      using b1 b2 b3 False by (subst dec_loop.simps) simp
    ultimately show ?thesis by simp
  qed
qed

lemma enc_dev_write_inv:
  assumes "enc_inv s" and "x \<noteq> []"
  shows "\<exists>n s'. enc_dev_write s x = Inr (n, s') \<and> enc_inv s' \<and> messageSize s' \<le> 766"
proof -
  let ?b = "take 256 x"
  let ?p = "takeWhile (\<lambda>b. b \<noteq> 0) (butlast ?b)"
  have sized: "enc_sized s" and lt: "length (temp s) = 256" and lm: "length (message s) = 769"
    and z: "temp s ! (256 - 1) = 0"
    using assms(1) by (simp_all add: enc_inv_def enc_sized_def)
  have ne: "?b \<noteq> []" using assms(2) by (cases x) simp_all
  have cell: "length (butlast ?b @ 0 # drop (length ?b) (temp s)) = 256
       \<and> (butlast ?b @ 0 # drop (length ?b) (temp s)) ! (256 - 1) = 0"
    by (rule fill_last_cell [OF lt z ne]) simp
  have "length ?p \<le> length (butlast ?b)" by (rule length_takeWhile_le)
  then have lp: "length ?p \<le> 255" by simp
  have lmsg: "length (triple ?p @ 0 # drop (3 * length ?p + 1) (message s)) = 769"
    using lp lm by (simp add: length_triple)
  show ?thesis
    unfolding enc_dev_write_eq [OF sized assms(2)]
    using cell lmsg lp by (simp add: enc_inv_def enc_sized_def)
qed

lemma dec_dev_write_inv:
  assumes "dec_inv s" and "x \<noteq> []"
  shows "\<exists>n s'. dec_dev_write s x = Inr (n, s') \<and> dec_inv s' \<and> messageSize s' \<le> 256"
proof -
  let ?b = "take 769 x"
  let ?t = "butlast ?b @ 0 # drop (length ?b) (temp s)"
  have lt: "length (temp s) = 769" and lm: "length (message s) = 256"
    and z: "temp s ! (769 - 1) = 0"
    using assms(1) by (simp_all add: dec_inv_def dec_sized_def)
  have ne: "?b \<noteq> []" using assms(2) by (cases x) simp_all
  have cell: "length ?t = 769 \<and> ?t ! (769 - 1) = 0"
    by (rule fill_last_cell [OF lt z ne]) simp
  then have l: "length ?t = 769" and c: "?t ! 768 = 0" by simp_all
  have fill: "fill_temp 769 (temp s) x = Inr (length ?b, ?t)"
    by (rule fill_temp_eq) (simp_all add: assms(2) lt)
  obtain m j where loop: "dec_loop ?t (message s) 0 = Inr (m, j)" and j: "j \<le> 768" and m: "length m = 256"
    using dec_loop_ok [OF l c lm, of 0] by auto
  have "j div 3 \<le> 256" using j by simp
  then show ?thesis
    unfolding dec_dev_write_def fill sum.case prod.case loop
    using l c m by (simp add: dec_inv_def dec_sized_def)
qed

lemma dev_calls_inv:
  assumes wr: "\<And>s x. P s \<Longrightarrow> x \<noteq> [] \<Longrightarrow> \<exists>n s'. wr s x = Inr (n, s') \<and> P s'"
    and op: "\<And>s. P s \<Longrightarrow> P (snd (dev_open s))"
    and rd: "\<And>s w. P s \<Longrightarrow> P (snd (snd (dev_read s w)))"
  shows "P s \<Longrightarrow> \<forall>c\<in>set cs. c \<noteq> Write [] \<Longrightarrow> \<exists>s'. dev_calls wr s cs = Inr s' \<and> P s'"
proof (induction cs arbitrary: s)
  case Nil
  then show ?case by simp
next
  case (Cons c cs)
  from Cons.prems(2) have c: "c \<noteq> Write []" and cs: "\<forall>c\<in>set cs. c \<noteq> Write []" by simp_all
  have "\<exists>s1. dev_call wr s c = Inr s1 \<and> P s1"
  proof (cases c)
    case Open
    then show ?thesis using op [OF Cons.prems(1)] by simp
  next
    case (Read w)
    then show ?thesis using rd [OF Cons.prems(1)] by simp
  next
    case (Write x)
    with c have "x \<noteq> []" by simp
    from wr [OF Cons.prems(1) this] show ?thesis using Write by auto
  next
    case Release
    then show ?thesis using Cons.prems(1) by (simp add: dev_release_def)
  qed
  then obtain s1 where s1: "dev_call wr s c = Inr s1" and p1: "P s1" by blast
  from Cons.IH [OF p1 cs] show ?case by (simp add: s1)
qed

lemma live_split: "3 dvd length g \<Longrightarrow> \<exists>r. g = live g @ r \<and> (r = [] \<or> hd r = 0)"
proof (induction g rule: live.induct)
  case (1 a b c r)
  show ?case
  proof (cases "a = 0")
    case True
    then show ?thesis by simp
  next
    case False
    have "length (a # b # c # r) = length r + 3" by simp
    with "1.prems" have "3 dvd length r + 3" by (simp only:)
    then have "3 dvd length r" by simp
    with "1.IH" [OF False] obtain r' where "r = live r @ r'" and "r' = [] \<or> hd r' = 0" by blast
    then show ?thesis using False by auto
  qed
qed (simp; presburger)+

section \<open>What the decoder stores\<close>

text \<open>
  Whenever the decoder's loop returns, every cell of \<^verbatim>\<open>message[]\<close> below the returned
  count holds the vote of the three cells of \<^verbatim>\<open>temp[]\<close> it was computed from, whatever
  the device held before and however many triplets were scanned.
\<close>

lemma dec_loop_stores_votes:
  "dec_loop tmp msg i = Inr (m, j) \<Longrightarrow> 3 dvd i \<Longrightarrow> (\<forall>k < i div 3. stores_vote tmp msg k) \<Longrightarrow>
   (\<forall>k < j div 3. stores_vote tmp m k) \<and> 3 dvd j \<and> j < length tmp \<and> tmp ! j = 0"
proof (induction tmp msg i rule: dec_loop.induct)
  case (1 tmp msg i)
  show ?case
  proof (cases "i < length tmp \<and> tmp ! i \<noteq> 0")
    case False
    then have "i < length tmp \<and> tmp ! i = 0 \<and> m = msg \<and> j = i"
      using "1.prems"(1) by (subst (asm) dec_loop.simps) (auto split: if_splits)
    then show ?thesis using "1.prems"(2,3) by simp
  next
    case True
    then have b1: "i < length tmp" and nz: "tmp ! i \<noteq> 0" by simp_all
    let ?msg = "msg[i div 3 := vote (tmp ! i) (tmp ! (i + 1)) (tmp ! (i + 2))]"
    have b2: "i + 2 < length tmp" and b3: "i div 3 < length msg"
      and next_call: "dec_loop tmp ?msg (i + 3) = Inr (m, j)"
      using "1.prems"(1) b1 nz by (subst (asm) dec_loop.simps; simp split: if_splits)+
    have d3: "3 dvd i + 3" using "1.prems"(2) by simp
    have i3: "3 * (i div 3) = i" using "1.prems"(2) by simp
    have "stores_vote tmp ?msg k" if k: "k < (i + 3) div 3" for k
    proof (cases "k = i div 3")
      case True
      then show ?thesis
        using b2 b3 nz by (simp add: stores_vote_def i3)
    next
      case False
      with k have "k < i div 3" by simp
      then have "stores_vote tmp msg k" using "1.prems"(3) by simp
      then show ?thesis using False by (simp add: stores_vote_def)
    qed
    then have inv: "\<forall>k < (i + 3) div 3. stores_vote tmp ?msg k" by simp
    show ?thesis
      by (rule "1.IH" [OF b1 nz b2 b3 next_call d3 inv])
  qed
qed

lemma dec_dev_write_stores_votes:
  assumes "dec_dev_write s buffer = Inr (n, s')"
  shows "fill_temp 769 (temp s) buffer = Inr (n, temp s')
       \<and> (\<forall>j < messageSize s'. stores_vote (temp s') (message s') j)"
proof -
  from assms obtain tmp where fill: "fill_temp 769 (temp s) buffer = Inr (n, tmp)"
    by (auto simp add: dec_dev_write_def split: sum.splits prod.splits)
  from assms fill obtain m i where loop: "dec_loop tmp (message s) 0 = Inr (m, i)"
    and s': "s' = s\<lparr>message := m, temp := tmp, messageSize := i div 3\<rparr>"
    by (auto simp add: dec_dev_write_def split: sum.splits prod.splits)
  have "(\<forall>k < i div 3. stores_vote tmp m k) \<and> 3 dvd i \<and> i < length tmp \<and> tmp ! i = 0"
    by (rule dec_loop_stores_votes [OF loop]) simp_all
  then show ?thesis using fill by (simp add: s')
qed

text \<open>
  Two facts about lengths that are not multiples of 3.  A write of at least one byte to a
  decoder whose arrays have their declared sizes and whose last \<^verbatim>\<open>temp[]\<close> cell is zero
  never leaves the arrays.  When the clamped length is one more than a multiple of 3 the
  forced terminator falls on the trailing byte and the output is the vote of each whole
  triplet before the first one that starts with a zero byte.
\<close>

theorem trailing_group:
  assumes "dec_inv s" and "x \<noteq> []"
  shows "(\<exists>n s'. dec_dev_write s x = Inr (n, s') \<and> dec_inv s')
       \<and> (length (take 769 x) mod 3 = 1 \<longrightarrow>
            decode s x = Inr (votes (live (butlast (take 769 x)))))"
proof -
  let ?g = "butlast (take 769 x)"
  have sized: "dec_sized s" using assms(1) by (simp add: dec_inv_def)
  have ok: "\<exists>n s'. dec_dev_write s x = Inr (n, s') \<and> dec_inv s'"
    using dec_dev_write_inv [OF assms] by blast
  have "decode s x = Inr (votes (live ?g))" if one: "length (take 769 x) mod 3 = 1"
  proof -
    have "length ?g = length (take 769 x) - 1" by (simp only: length_butlast)
    with one have "3 dvd length ?g" by presburger
    then obtain r where split: "?g = live ?g @ r" and r: "r = [] \<or> hd r = 0"
      using live_split by blast
    show ?thesis
      by (rule decode_eq [OF sized assms(2) split starts_nonzero_live r])
  qed
  with ok show ?thesis by blast
qed

theorem trailing_group_example:
  "dec_inv dec_init \<and> [0x41, 0x41, 0x41, 0x42] \<noteq> ([] :: byte list)
   \<and> (\<exists>n s'. dec_dev_write dec_init [0x41, 0x41, 0x41, 0x42] = Inr (n, s') \<and> dec_inv s')
   \<and> length (take 769 [0x41, 0x41, 0x41, 0x42 :: byte]) mod 3 = 1
   \<and> decode dec_init [0x41, 0x41, 0x41, 0x42] = Inr [0x41]"
proof -
  have i: "dec_inv dec_init" by (simp add: dec_inv_def dec_sized_def dec_init_def)
  have n: "[0x41, 0x41, 0x41, 0x42] \<noteq> ([] :: byte list)" by simp
  have l: "length (take 769 [0x41, 0x41, 0x41, 0x42 :: byte]) mod 3 = 1" by simp
  have v: "votes (live (butlast (take 769 [0x41, 0x41, 0x41, 0x42 :: byte]))) = [0x41]" by simp
  show ?thesis
    using i n l trailing_group [OF i n] unfolding v by blast
qed

section \<open>The claims\<close>

text \<open>
  C2. After any write the decoder accepts, in any device state, every decoded byte \<open>j\<close>
  below \<^verbatim>\<open>messageSize\<close> is the vote of the triplet at cells \<open>3j\<close>, \<open>3j + 1\<close>, \<open>3j + 2\<close> of
  the \<^verbatim>\<open>temp[]\<close> the write filled, and so has at every bit position \<open>k\<close> the value held by
  at least two of the three bits at \<open>k\<close>.  For all bytes, the four-term disjunction of
  \<^verbatim>\<open>decode.c\<close> is bit by bit the majority and is the same byte as
  \<open>(a & b) | (b & c) | (a & c)\<close>; and a fresh decoder that receives one triplet and a
  terminator returns exactly that byte (nothing when the triplet starts with a zero byte).
\<close>

theorem vote_is_bitwise_majority:
  assumes "dec_dev_write s buffer = Inr (n, s')" and "j < messageSize s'"
  shows "fill_temp 769 (temp s) buffer = Inr (n, temp s')
    \<and> 3 * j + 2 < length (temp s') \<and> j < length (message s')
    \<and> message s' ! j = vote (temp s' ! (3 * j)) (temp s' ! (3 * j + 1)) (temp s' ! (3 * j + 2))
    \<and> bit (message s' ! j) k
        = majority (bit (temp s' ! (3 * j)) k) (bit (temp s' ! (3 * j + 1)) k) (bit (temp s' ! (3 * j + 2)) k)
    \<and> bit (vote a b c) k = majority (bit a k) (bit b k) (bit c k)
    \<and> vote a b c = (a AND b) OR (b AND c) OR (a AND c)
    \<and> decode dec_init [a, b, c, 0] = Inr (if a = 0 then [] else [vote a b c])"
proof -
  have fill: "fill_temp 769 (temp s) buffer = Inr (n, temp s')"
    and sv: "stores_vote (temp s') (message s') j"
    using dec_dev_write_stores_votes [OF assms(1)] assms(2) by simp_all
  from sv have b: "3 * j + 2 < length (temp s')" "j < length (message s')"
    and v: "message s' ! j = vote (temp s' ! (3 * j)) (temp s' ! (3 * j + 1)) (temp s' ! (3 * j + 2))"
    by (simp_all add: stores_vote_def)
  have bm: "bit (message s' ! j) k
        = majority (bit (temp s' ! (3 * j)) k) (bit (temp s' ! (3 * j + 1)) k) (bit (temp s' ! (3 * j + 2)) k)"
    unfolding v by (rule bit_vote)
  have d: "dec_sized dec_init" by (simp add: dec_sized_def dec_init_def)
  have one: "decode dec_init [a, b, c, 0] = Inr (if a = 0 then [] else [vote a b c])"
  proof (cases "a = 0")
    case True
    have "decode dec_init [a, b, c, 0] = Inr (votes [])"
      by (rule decode_eq [OF d, where r = "[a, b, c]"]) (simp_all add: True)
    then show ?thesis using True by simp
  next
    case False
    have "decode dec_init [a, b, c, 0] = Inr (votes [a, b, c])"
      by (rule decode_eq [OF d, where r = "[]"]) (simp_all add: False)
    then show ?thesis using False by simp
  qed
  show ?thesis
    using fill b v bm bit_vote [of a b c k] vote_three_term [of a b c] one
    by (intro conjI)
qed

theorem vote_is_bitwise_majority_witness:
  "dec_dev_write dec_init [0x41, 0x41, 0x41, 0x43, 0x42, 0x42, 0]
     = Inr (7, dec_init\<lparr>message := 0x41 # 0x42 # replicate 254 0,
                         temp := [0x41, 0x41, 0x41, 0x43, 0x42, 0x42, 0] @ replicate 762 0,
                         messageSize := 2\<rparr>)
   \<and> (1 :: nat) < messageSize (dec_init\<lparr>message := 0x41 # 0x42 # replicate 254 0,
                         temp := [0x41, 0x41, 0x41, 0x43, 0x42, 0x42, 0] @ replicate 762 0,
                         messageSize := 2\<rparr>)
   \<and> message (dec_init\<lparr>message := 0x41 # 0x42 # replicate 254 0,
                         temp := [0x41, 0x41, 0x41, 0x43, 0x42, 0x42, 0] @ replicate 762 0,
                         messageSize := 2\<rparr>) ! 1 = vote 0x43 0x42 0x42
   \<and> vote 0x43 0x42 0x42 = 0x42"
proof -
  let ?s' = "dec_init\<lparr>message := 0x41 # 0x42 # replicate 254 0,
                         temp := [0x41, 0x41, 0x41, 0x43, 0x42, 0x42, 0] @ replicate 762 0,
                         messageSize := 2\<rparr>"
  have w: "dec_dev_write dec_init [0x41, 0x41, 0x41, 0x43, 0x42, 0x42, 0] = Inr (7, ?s')"
    by code_simp
  have j: "(1 :: nat) < messageSize ?s'" by simp
  have v: "vote 0x43 0x42 0x42 = (0x42 :: byte)" by (simp add: vote_def)
  from vote_is_bitwise_majority [OF w j]
  have "message ?s' ! 1 = vote (temp ?s' ! (3 * 1)) (temp ?s' ! (3 * 1 + 1)) (temp ?s' ! (3 * 1 + 2))"
    by blast
  then have "message ?s' ! 1 = vote 0x43 0x42 0x42" by simp
  with w j v show ?thesis by (intro conjI)
qed

text \<open>
  C1, as stated, fails: writing the two bytes \<open>0x41 0x42\<close> to a fresh encoder, reading the
  result, writing it to a fresh decoder and reading again gives the single byte \<open>0x41\<close>.
\<close>

theorem roundtrip_loses_final_byte:
  "roundtrip enc_init dec_init [0x41, 0x42] = Inr [0x41]
   \<and> roundtrip enc_init dec_init [0x41, 0x42] \<noteq> Inr [0x41, 0x42]"
  by code_simp

text \<open>
  C1, amended.  For every byte sequence \<open>x\<close> with \<open>1 \<le> len(x) \<le> 256\<close> and no zero byte,
  on devices whose arrays have their declared sizes (whatever they hold), writing \<open>x\<close> to the
  encoder, reading its output, writing that to the decoder and reading the result gives
  \<open>x\<close> without its final byte.
\<close>

theorem roundtrip_butlast:
  assumes "enc_sized es" and "dec_sized ds"
    and "x \<noteq> []" and "length x \<le> 256" and "0 \<notin> set x"
  shows "roundtrip es ds x = Inr (butlast x)"
proof -
  have "\<forall>b\<in>set (butlast x). b \<noteq> 0"
    using assms(5) by (auto dest: in_set_butlastD)
  then have "takeWhile (\<lambda>b. b \<noteq> 0) (butlast x) = butlast x"
    by (simp add: takeWhile_eq_all_conv)
  then show ?thesis
    using roundtrip_eq [OF assms(1,2,3)] assms(4) by simp
qed

theorem roundtrip_butlast_witness:
  "enc_sized enc_init \<and> dec_sized dec_init \<and> [0x41, 0x42] \<noteq> ([] :: byte list)
   \<and> length [0x41, 0x42 :: byte] \<le> 256 \<and> 0 \<notin> set [0x41, 0x42 :: byte]
   \<and> roundtrip enc_init dec_init [0x41, 0x42] = Inr (butlast [0x41, 0x42])"
proof -
  have e: "enc_sized enc_init" by (simp add: enc_sized_def enc_init_def)
  have d: "dec_sized dec_init" by (simp add: dec_sized_def dec_init_def)
  have n: "[0x41, 0x42] \<noteq> ([] :: byte list)" by simp
  have l: "length [0x41, 0x42 :: byte] \<le> 256" by simp
  have z: "0 \<notin> set [0x41, 0x42 :: byte]" by simp
  show ?thesis
    using e d n l z roundtrip_butlast [OF e d n l z] by simp
qed

text \<open>
  C8. For a write of \<open>L\<close> bytes, \<open>1 \<le> L \<le> 256\<close>, to the encoder: the loop scans
  \<^verbatim>\<open>temp[]\<close> with cell \<open>L - 1\<close> already zero; the write succeeds; the pending output is
  the triplication of the bytes of \<open>x\<close> before its last one (up to the first zero among
  them) and one terminator, so at most \<open>L - 1\<close> bytes are encoded; and replacing the last
  byte of \<open>x\<close> by any other byte changes nothing.
\<close>

theorem encoder_drops_final_byte:
  assumes "enc_sized s" and "1 \<le> length x" and "length x \<le> 256"
  shows "fill_temp 256 (temp s) x = Inr (length x, butlast x @ 0 # drop (length x) (temp s))
    \<and> (\<exists>s'. enc_dev_write s x = Inr (length x, s')
          \<and> temp s' ! (length x - 1) = 0
          \<and> read_all s' = triple (takeWhile (\<lambda>b. b \<noteq> 0) (butlast x)) @ [0]
          \<and> messageSize s' = 3 * length (takeWhile (\<lambda>b. b \<noteq> 0) (butlast x)) + 1
          \<and> messageSize s' \<le> 3 * (length x - 1) + 1)
    \<and> enc_dev_write s (butlast x @ [b]) = enc_dev_write s x"
proof -
  let ?p = "takeWhile (\<lambda>b. b \<noteq> 0) (butlast x)"
  have ne: "x \<noteq> []" using assms(2) by auto
  have tk: "take 256 x = x" using assms(3) by simp
  have lt: "length (temp s) = 256" using assms(1) by (simp add: enc_sized_def)
  have fill: "fill_temp 256 (temp s) x = Inr (length x, butlast x @ 0 # drop (length x) (temp s))"
    using fill_temp_eq [of x 256 "temp s"] ne lt by (simp add: tk)
  have w: "enc_dev_write s x = Inr (length x,
          s\<lparr>message := triple ?p @ 0 # drop (3 * length ?p + 1) (message s),
            temp := butlast x @ 0 # drop (length x) (temp s),
            messageSize := length ?p * 3 + 1\<rparr>)"
    using enc_dev_write_eq [OF assms(1) ne] by (simp only: tk)
  have lp: "length ?p \<le> length x - 1"
    using length_takeWhile_le [of "\<lambda>b. b \<noteq> 0" "butlast x"] by simp
  have cell: "(butlast x @ 0 # drop (length x) (temp s)) ! (length x - 1) = 0"
    using nth_append_length [of "butlast x" 0 "drop (length x) (temp s)"] by simp
  have ne': "butlast x @ [b] \<noteq> []" by simp
  have tk': "take 256 (butlast x @ [b]) = butlast x @ [b]" using assms(3) by simp
  have same: "enc_dev_write s (butlast x @ [b]) = enc_dev_write s x"
    unfolding w enc_dev_write_eq [OF assms(1) ne'] tk' using ne by simp
  show ?thesis
    using fill same lp cell unfolding w by (simp add: read_all_eq length_triple)
qed

theorem encoder_drops_final_byte_witness:
  "enc_sized enc_init \<and> 1 \<le> length [0x41, 0x42 :: byte] \<and> length [0x41, 0x42 :: byte] \<le> 256
   \<and> (\<exists>s'. enc_dev_write enc_init [0x41, 0x42] = Inr (length [0x41, 0x42 :: byte], s')
          \<and> read_all s' = [0x41, 0x41, 0x41, 0])
   \<and> enc_dev_write enc_init (butlast [0x41, 0x42] @ [0x5A]) = enc_dev_write enc_init [0x41, 0x42]"
proof -
  have e: "enc_sized enc_init" by (simp add: enc_sized_def enc_init_def)
  have l1: "1 \<le> length [0x41, 0x42 :: byte]" by simp
  have l2: "length [0x41, 0x42 :: byte] \<le> 256" by simp
  show ?thesis
    using e l1 l2 encoder_drops_final_byte [OF e l1 l2, of "0x5A"] by auto
qed

text \<open>
  C3, as stated, fails for the same reason as C1: with \<open>x = 0x41 0x42\<close>, flipping bit 0 of
  the second copy of the first triplet of the encoded form, the decoder returns the single
  byte \<open>0x41\<close>, not \<open>x\<close>.
\<close>

theorem single_copy_corruption_loses_final_byte:
  "encode enc_init [0x41, 0x42] = Inr [0x41, 0x41, 0x41, 0]
   \<and> decode dec_init ([0x41, 0x41, 0x41, 0][3 * 0 + 1 := [0x41, 0x41, 0x41, 0] ! (3 * 0 + 1) XOR 0x01]) = Inr [0x41]
   \<and> decode dec_init ([0x41, 0x41, 0x41, 0][3 * 0 + 1 := [0x41, 0x41, 0x41, 0] ! (3 * 0 + 1) XOR 0x01]) \<noteq> Inr [0x41, 0x42]"
  by code_simp

text \<open>
  C3, amended.  For every byte sequence \<open>x\<close> with \<open>1 \<le> len(x) \<le> 256\<close> and no zero byte,
  with \<open>y\<close> the encoder's output for \<open>x\<close>: for every triplet index \<open>j\<close> of \<open>y\<close> and every
  copy \<open>c\<close> of that triplet, flipping the bits of any mask \<open>m\<close> in that one copy (the first
  copy not becoming zero) still makes the decoder return \<open>x\<close> without its final byte, which
  is what it returns for the uncorrupted \<open>y\<close>.
\<close>

theorem single_copy_corruption:
  assumes "enc_sized es" and "dec_sized ds"
    and "x \<noteq> []" and "length x \<le> 256" and "0 \<notin> set x"
    and "encode es x = Inr y" and "j < length y div 3" and "c < 3"
    and "c = 0 \<longrightarrow> y ! (3 * j) XOR m \<noteq> 0"
  shows "decode ds (y[3 * j + c := y ! (3 * j + c) XOR m]) = Inr (butlast x)"
proof -
  let ?p = "butlast x"
  let ?v = "y ! (3 * j + c) XOR m"
  let ?g = "(triple ?p)[3 * j + c := ?v]"
  have nz: "\<forall>b\<in>set ?p. b \<noteq> 0"
    using assms(5) by (auto dest: in_set_butlastD)
  then have tw: "takeWhile (\<lambda>b. b \<noteq> 0) ?p = ?p"
    by (simp add: takeWhile_eq_all_conv)
  have tk256: "take 256 x = x" using assms(4) by simp
  have "encode es x = Inr (triple ?p @ [0])"
    using encode_eq [OF assms(1,3)] unfolding tk256 tw .
  with assms(6) have y: "y = triple ?p @ [0]" by simp
  have lp: "length ?p \<le> 255" using assms(4) by simp
  have j: "j < length ?p" using assms(7) by (simp add: y length_triple)
  then have k: "3 * j + c < length (triple ?p)" using assms(8) by (simp add: length_triple)
  have upd: "y[3 * j + c := ?v] = ?g @ [0]"
    using k by (simp add: y list_update_append)
  have v0: "c = 0 \<longrightarrow> ?v \<noteq> 0" using assms(9) by auto
  have g: "starts_nonzero ?g" by (rule starts_nonzero_corrupt [OF nz j assms(8) v0])
  have tk: "butlast (take 769 (?g @ [0])) = ?g @ []"
    using lp by (simp add: length_triple)
  have "decode ds (?g @ [0]) = Inr (votes ?g)"
    by (rule decode_eq [OF assms(2) _ tk g]) simp_all
  then show ?thesis
    unfolding upd using votes_corrupt [OF j assms(8)] by simp
qed

theorem single_copy_corruption_witness:
  "enc_sized enc_init \<and> dec_sized dec_init \<and> [0x41, 0x42, 0x43] \<noteq> ([] :: byte list)
   \<and> length [0x41, 0x42, 0x43 :: byte] \<le> 256 \<and> 0 \<notin> set [0x41, 0x42, 0x43 :: byte]
   \<and> encode enc_init [0x41, 0x42, 0x43] = Inr [0x41, 0x41, 0x41, 0x42, 0x42, 0x42, 0]
   \<and> (1 :: nat) < length [0x41, 0x41, 0x41, 0x42, 0x42, 0x42, 0 :: byte] div 3 \<and> (2 :: nat) < 3
   \<and> decode dec_init ([0x41, 0x41, 0x41, 0x42, 0x42, 0x42, 0][3 * 1 + 2 := [0x41, 0x41, 0x41, 0x42, 0x42, 0x42, 0] ! (3 * 1 + 2) XOR 0xFF])
       = Inr (butlast [0x41, 0x42, 0x43])"
proof -
  have e: "enc_sized enc_init" by (simp add: enc_sized_def enc_init_def)
  have d: "dec_sized dec_init" by (simp add: dec_sized_def dec_init_def)
  have n: "[0x41, 0x42, 0x43] \<noteq> ([] :: byte list)" by simp
  have l: "length [0x41, 0x42, 0x43 :: byte] \<le> 256" by simp
  have z: "0 \<notin> set [0x41, 0x42, 0x43 :: byte]" by simp
  have y: "encode enc_init [0x41, 0x42, 0x43] = Inr [0x41, 0x41, 0x41, 0x42, 0x42, 0x42, 0]"
    by code_simp
  have j: "(1 :: nat) < length [0x41, 0x41, 0x41, 0x42, 0x42, 0x42, 0 :: byte] div 3" by simp
  have c: "(2 :: nat) < 3" by simp
  have v: "(2 :: nat) = 0 \<longrightarrow> [0x41, 0x41, 0x41, 0x42, 0x42, 0x42, 0 :: byte] ! (3 * 1) XOR 0xFF \<noteq> 0" by simp
  show ?thesis
    using e d n l z y j c single_copy_corruption [OF e d n l z y j c v] by simp
qed

text \<open>
  C4, as stated, fails: a write of 256 bytes \<open>0x41\<close> to a fresh encoder records the length
  766, not 769.
\<close>

theorem full_length_write_size:
  "map_sum id (messageSize \<circ> snd) (enc_dev_write enc_init (replicate 256 0x41)) = Inr 766
   \<and> map_sum id (messageSize \<circ> snd) (enc_dev_write enc_init (replicate 256 0x41)) \<noteq> Inr 769"
proof -
  have e: "enc_sized enc_init" by (simp add: enc_sized_def enc_init_def)
  have n: "replicate 256 (0x41 :: byte) \<noteq> []" by simp
  have b: "butlast (replicate 256 (0x41 :: byte)) = replicate 255 0x41"
    by (simp add: butlast_conv_take)
  show ?thesis
    unfolding enc_dev_write_eq [OF e n] by (simp add: b)
qed

text \<open>
  C4, amended.  For every input \<open>x\<close> with \<open>len(x) = 256\<close> and no zero byte, the encoder's
  write succeeds (no access leaves \<^verbatim>\<open>temp[]\<close> or the 769-byte \<^verbatim>\<open>message[]\<close>) and records
  the length 766: the 3 * 255 copies of the first 255 bytes and one terminator.
\<close>

theorem full_length_write:
  assumes "enc_sized s" and "length x = 256" and "0 \<notin> set x"
  shows "\<exists>s'. enc_dev_write s x = Inr (256, s') \<and> messageSize s' = 766
           \<and> length (message s') = 769 \<and> length (temp s') = 256
           \<and> read_all s' = triple (butlast x) @ [0]"
proof -
  let ?p = "butlast x"
  have ne: "x \<noteq> []" using assms(2) by auto
  have tk: "take 256 x = x" using assms(2) by simp
  have "\<forall>b\<in>set ?p. b \<noteq> 0"
    using assms(3) by (auto dest: in_set_butlastD)
  then have tw: "takeWhile (\<lambda>b. b \<noteq> 0) ?p = ?p"
    by (simp add: takeWhile_eq_all_conv)
  have lm: "length (message s) = 769" and lt: "length (temp s) = 256"
    using assms(1) by (simp_all add: enc_sized_def)
  have w: "enc_dev_write s x = Inr (length x,
          s\<lparr>message := triple ?p @ 0 # drop (3 * length ?p + 1) (message s),
            temp := butlast x @ 0 # drop (length x) (temp s),
            messageSize := length ?p * 3 + 1\<rparr>)"
    using enc_dev_write_eq [OF assms(1) ne] unfolding tk tw .
  show ?thesis
    unfolding w using assms(2) lm lt by (simp add: read_all_eq length_triple)
qed

theorem full_length_write_witness:
  "enc_sized enc_init \<and> length (replicate 256 (0x41 :: byte)) = 256 \<and> 0 \<notin> set (replicate 256 (0x41 :: byte))
   \<and> (\<exists>s'. enc_dev_write enc_init (replicate 256 0x41) = Inr (256, s') \<and> messageSize s' = 766)"
proof -
  have e: "enc_sized enc_init" by (simp add: enc_sized_def enc_init_def)
  have l: "length (replicate 256 (0x41 :: byte)) = 256" by simp
  have z: "0 \<notin> set (replicate 256 (0x41 :: byte))" by simp
  show ?thesis
    using e l z full_length_write [OF e l z] by blast
qed

text \<open>
  C5. A zero-length write makes \<^verbatim>\<open>temp[len-1]\<close> the store \<^verbatim>\<open>temp[SIZE_MAX]\<close>, one cell
  before the array: in both devices the write is an access outside \<^verbatim>\<open>temp[]\<close>, not a
  zero-length result.
\<close>

theorem zero_length_write_faults:
  "enc_dev_write enc_init [] = Inl TempOutOfBounds \<and> dec_dev_write dec_init [] = Inl TempOutOfBounds"
  by (simp add: enc_dev_write_def dec_dev_write_def fill_temp_def force_terminator_def
      copy_from_user_def enc_init_def dec_init_def)

text \<open>
  C7. On either device, a read after any calls that include no write, starting from the
  initial state, returns 0 and delivers no byte; a read into a large enough destination
  delivers the pending bytes; every read leaves \<^verbatim>\<open>messageSize\<close> zero; and after any read
  in any state, a read that follows with no write in between returns 0 and delivers no
  byte.
\<close>

theorem read_without_write_is_empty:
  assumes "list_all (\<lambda>c. \<not> is_write c) cs"
  shows "(\<exists>s'. dev_calls enc_dev_write enc_init cs = Inr s' \<and> dev_read s' w = (0, [], s'))
       \<and> (\<exists>s'. dev_calls dec_dev_write dec_init cs = Inr s' \<and> dev_read s' w = (0, [], s'))
       \<and> dev_read s (messageSize s)
           = (int (messageSize s), take (messageSize s) (message s), s\<lparr>messageSize := 0\<rparr>)
       \<and> messageSize (snd (snd (dev_read s v))) = 0
       \<and> (\<exists>s'. dev_calls wr (snd (snd (dev_read s v))) cs = Inr s' \<and> dev_read s' w = (0, [], s'))"
proof -
  have c: "dev_read s (messageSize s)
      = (int (messageSize s), take (messageSize s) (message s), s\<lparr>messageSize := 0\<rparr>)"
    by (simp add: dev_read_def copy_to_user_def)
  have e: "messageSize enc_init = 0" by (simp add: enc_init_def)
  have d: "messageSize dec_init = 0" by (simp add: dec_init_def)
  have r: "messageSize (snd (snd (dev_read s v))) = 0" by (rule read_clears)
  have nw: "\<forall>c\<in>set cs. \<not> is_write c" using assms by (simp add: list_all_iff)
  show ?thesis
    using no_write_keeps_empty [OF e nw, of enc_dev_write]
      no_write_keeps_empty [OF d nw, of dec_dev_write]
      no_write_keeps_empty [OF r nw, of wr] r c
    by (auto simp add: read_empty)
qed

theorem read_without_write_is_empty_witness:
  "list_all (\<lambda>c. \<not> is_write c) [Open, Read 8, Release]
   \<and> (\<exists>s'. dev_calls enc_dev_write enc_init [Open, Read 8, Release] = Inr s' \<and> dev_read s' 5 = (0, [], s'))
   \<and> (\<exists>s'. dev_calls dec_dev_write dec_init [Open, Read 8, Release] = Inr s' \<and> dev_read s' 5 = (0, [], s'))
   \<and> (\<exists>s'. dev_calls enc_dev_write (snd (snd (dev_read (enc_init\<lparr>messageSize := 4\<rparr>) 2))) [Open, Read 8, Release] = Inr s'
          \<and> dev_read s' 5 = (0, [], s'))"
proof -
  have h: "list_all (\<lambda>c. \<not> is_write c) [Open, Read 8, Release]" by simp
  show ?thesis
    using h read_without_write_is_empty [OF h, of 5 "enc_init\<lparr>messageSize := 4\<rparr>" 2 enc_dev_write]
    by simp
qed

text \<open>
  C9. When \<^verbatim>\<open>copy_to_user\<close> leaves bytes uncopied, \<^verbatim>\<open>dev_read\<close> returns \<^verbatim>\<open>-EFAULT\<close>,
  \<^verbatim>\<open>messageSize\<close> is 0 afterwards, the state is the one a successful read leaves, and it
  differs from the state before the read.
\<close>

theorem failed_read_discards_message:
  assumes "snd (copy_to_user writable (message s) (messageSize s)) \<noteq> 0"
  shows "fst (dev_read s writable) = - EFAULT
       \<and> messageSize (snd (snd (dev_read s writable))) = 0
       \<and> snd (snd (dev_read s writable)) = snd (snd (dev_read s (messageSize s)))
       \<and> snd (snd (dev_read s writable)) \<noteq> s"
proof -
  from assms have lt: "writable < messageSize s"
    by (simp add: copy_to_user_def min_def split: if_splits)
  then have "messageSize (s\<lparr>messageSize := 0\<rparr>) \<noteq> messageSize s" by simp
  then have "s\<lparr>messageSize := 0\<rparr> \<noteq> s" by metis
  then show ?thesis
    using assms by (simp add: dev_read_def copy_to_user_def Let_def)
qed

theorem failed_read_discards_message_witness:
  "snd (copy_to_user 2 (message (enc_init\<lparr>messageSize := 4\<rparr>)) (messageSize (enc_init\<lparr>messageSize := 4\<rparr>))) \<noteq> 0
   \<and> (fst (dev_read (enc_init\<lparr>messageSize := 4\<rparr>) 2) = - EFAULT
       \<and> messageSize (snd (snd (dev_read (enc_init\<lparr>messageSize := 4\<rparr>) 2))) = 0
       \<and> snd (snd (dev_read (enc_init\<lparr>messageSize := 4\<rparr>) 2))
           = snd (snd (dev_read (enc_init\<lparr>messageSize := 4\<rparr>) (messageSize (enc_init\<lparr>messageSize := 4\<rparr>))))
       \<and> snd (snd (dev_read (enc_init\<lparr>messageSize := 4\<rparr>) 2)) \<noteq> enc_init\<lparr>messageSize := 4\<rparr>)"
proof -
  have h: "snd (copy_to_user 2 (message (enc_init\<lparr>messageSize := 4\<rparr>)) (messageSize (enc_init\<lparr>messageSize := 4\<rparr>))) \<noteq> 0"
    by (simp add: copy_to_user_def)
  show ?thesis
    using h failed_read_discards_message [OF h] by (rule conjI)
qed

text \<open>
  C6. The claim does not hold of \<^verbatim>\<open>decode.c\<close>.  Five bytes written to a fresh decoder, one
  whole triplet and a trailing pair, give two decoded bytes, and with the first byte of the
  pair set to zero they give one: the trailing pair decides the output.  On a decoder that
  has already received ten bytes \<open>0x42\<close>, the five bytes \<open>41 41 41 43 43\<close> give the three
  bytes \<open>41 42 42\<close>: the scan steps over the terminator forced at \<^verbatim>\<open>temp[4]\<close> and votes
  cells left by the earlier write.
\<close>

theorem trailing_pair_is_decoded:
  "decode dec_init [0x41, 0x41, 0x41, 0x42, 0x42] = Inr [0x41, 0]
   \<and> decode dec_init [0x41, 0x41, 0x41, 0, 0x42] = Inr [0x41]
   \<and> decode dec_init [0x41, 0x41, 0x41, 0x42, 0x42] \<noteq> decode dec_init [0x41, 0x41, 0x41, 0, 0x42]
   \<and> (case dev_calls dec_dev_write dec_init [Write (replicate 10 0x42), Read 16] of
         Inl e \<Rightarrow> Inl e
       | Inr s \<Rightarrow> decode s [0x41, 0x41, 0x41, 0x43, 0x43]) = Inr [0x41, 0x42, 0x42]"
  by code_simp

text \<open>
  C10. After any sequence of calls from the initial state in which every write has at least
  one byte, on either device: no call faulted (every access stayed inside \<^verbatim>\<open>temp[]\<close> and
  \<^verbatim>\<open>message[]\<close>, a store outside being the fault value of the model), the arrays have their
  declared sizes, the last cell of \<^verbatim>\<open>temp[]\<close> is zero, and \<^verbatim>\<open>messageSize\<close> is at most 766
  (encoder) or 256 (decoder).  For any further write of at least one byte, the scan loop
  runs on a \<^verbatim>\<open>temp[]\<close> whose last cell is zero and returns, with \<open>i \<le> 255\<close> in the encoder
  (stores up to \<^verbatim>\<open>message[765]\<close>) and \<open>i \<le> 768\<close> in the decoder (stores up to
  \<^verbatim>\<open>message[255]\<close>).
\<close>

theorem scan_loops_stay_in_bounds:
  assumes "list_all (\<lambda>c. c \<noteq> Write []) cs" and "x \<noteq> []"
  shows "(\<exists>s'. dev_calls enc_dev_write enc_init cs = Inr s' \<and> enc_inv s' \<and> messageSize s' \<le> 766
            \<and> (\<exists>n t m i. fill_temp 256 (temp s') x = Inr (n, t) \<and> t ! 255 = 0
                  \<and> enc_loop t (message s') 0 = Inr (m, i) \<and> i \<le> 255 \<and> length m = 769))
       \<and> (\<exists>s'. dev_calls dec_dev_write dec_init cs = Inr s' \<and> dec_inv s' \<and> messageSize s' \<le> 256
            \<and> (\<exists>n t m i. fill_temp 769 (temp s') x = Inr (n, t) \<and> t ! 768 = 0
                  \<and> dec_loop t (message s') 0 = Inr (m, i) \<and> i \<le> 768 \<and> length m = 256))"
proof -
  have cs: "\<forall>c\<in>set cs. c \<noteq> Write []" using assms(1) by (simp add: list_all_iff)
  have e0: "enc_inv enc_init \<and> messageSize enc_init \<le> 766"
    by (simp add: enc_inv_def enc_sized_def enc_init_def)
  have d0: "dec_inv dec_init \<and> messageSize dec_init \<le> 256"
    by (simp add: dec_inv_def dec_sized_def dec_init_def)
  have "\<exists>s'. dev_calls enc_dev_write enc_init cs = Inr s' \<and> (enc_inv s' \<and> messageSize s' \<le> 766)"
  proof (rule dev_calls_inv [where P = "\<lambda>s. enc_inv s \<and> messageSize s \<le> 766", OF _ _ _ e0 cs])
    show "\<exists>n s'. enc_dev_write s y = Inr (n, s') \<and> (enc_inv s' \<and> messageSize s' \<le> 766)"
      if "enc_inv s \<and> messageSize s \<le> 766" and "y \<noteq> []" for s y
      using enc_dev_write_inv [of s y] that by blast
    show "enc_inv (snd (dev_open s)) \<and> messageSize (snd (dev_open s)) \<le> 766"
      if "enc_inv s \<and> messageSize s \<le> 766" for s
      using that by (simp add: dev_open_def enc_inv_def enc_sized_def)
    show "enc_inv (snd (snd (dev_read s w))) \<and> messageSize (snd (snd (dev_read s w))) \<le> 766"
      if "enc_inv s \<and> messageSize s \<le> 766" for s w
      using that by (simp add: dev_read_def copy_to_user_def Let_def enc_inv_def enc_sized_def)
  qed
  then obtain es where es: "dev_calls enc_dev_write enc_init cs = Inr es"
    and ei: "enc_inv es" and em: "messageSize es \<le> 766" by blast
  have "\<exists>s'. dev_calls dec_dev_write dec_init cs = Inr s' \<and> (dec_inv s' \<and> messageSize s' \<le> 256)"
  proof (rule dev_calls_inv [where P = "\<lambda>s. dec_inv s \<and> messageSize s \<le> 256", OF _ _ _ d0 cs])
    show "\<exists>n s'. dec_dev_write s y = Inr (n, s') \<and> (dec_inv s' \<and> messageSize s' \<le> 256)"
      if "dec_inv s \<and> messageSize s \<le> 256" and "y \<noteq> []" for s y
      using dec_dev_write_inv [of s y] that by blast
    show "dec_inv (snd (dev_open s)) \<and> messageSize (snd (dev_open s)) \<le> 256"
      if "dec_inv s \<and> messageSize s \<le> 256" for s
      using that by (simp add: dev_open_def dec_inv_def dec_sized_def)
    show "dec_inv (snd (snd (dev_read s w))) \<and> messageSize (snd (snd (dev_read s w))) \<le> 256"
      if "dec_inv s \<and> messageSize s \<le> 256" for s w
      using that by (simp add: dev_read_def copy_to_user_def Let_def dec_inv_def dec_sized_def)
  qed
  then obtain ds where ds: "dev_calls dec_dev_write dec_init cs = Inr ds"
    and di: "dec_inv ds" and dm: "messageSize ds \<le> 256" by blast
  have enc_next: "\<exists>n t m i. fill_temp 256 (temp es) x = Inr (n, t) \<and> t ! 255 = 0
                  \<and> enc_loop t (message es) 0 = Inr (m, i) \<and> i \<le> 255 \<and> length m = 769"
  proof -
    let ?b = "take 256 x"
    let ?t = "butlast ?b @ 0 # drop (length ?b) (temp es)"
    have lt: "length (temp es) = 256" and lm: "length (message es) = 769"
      and z: "temp es ! (256 - 1) = 0"
      using ei by (simp_all add: enc_inv_def enc_sized_def)
    have ne: "?b \<noteq> []" using assms(2) by (cases x) simp_all
    have "length ?t = 256 \<and> ?t ! (256 - 1) = 0"
      by (rule fill_last_cell [OF lt z ne]) simp
    then have c: "?t ! 255 = 0" by simp
    have fill: "fill_temp 256 (temp es) x = Inr (length ?b, ?t)"
      by (rule fill_temp_eq) (simp_all add: assms(2) lt)
    have "\<exists>m i. enc_loop ?t (message es) 0 = Inr (m, i) \<and> i \<le> 255 \<and> length m = 769"
      by (rule enc_scan_ok [OF lm _ ne]) simp
    with fill c show ?thesis by blast
  qed
  have dec_next: "\<exists>n t m i. fill_temp 769 (temp ds) x = Inr (n, t) \<and> t ! 768 = 0
                  \<and> dec_loop t (message ds) 0 = Inr (m, i) \<and> i \<le> 768 \<and> length m = 256"
  proof -
    let ?b = "take 769 x"
    let ?t = "butlast ?b @ 0 # drop (length ?b) (temp ds)"
    have lt: "length (temp ds) = 769" and lm: "length (message ds) = 256"
      and z: "temp ds ! (769 - 1) = 0"
      using di by (simp_all add: dec_inv_def dec_sized_def)
    have ne: "?b \<noteq> []" using assms(2) by (cases x) simp_all
    have "length ?t = 769 \<and> ?t ! (769 - 1) = 0"
      by (rule fill_last_cell [OF lt z ne]) simp
    then have l: "length ?t = 769" and c: "?t ! 768 = 0" by simp_all
    have fill: "fill_temp 769 (temp ds) x = Inr (length ?b, ?t)"
      by (rule fill_temp_eq) (simp_all add: assms(2) lt)
    have "\<exists>m i. dec_loop ?t (message ds) 0 = Inr (m, i) \<and> i \<le> 768 \<and> length m = 256"
      using dec_loop_ok [OF l c lm, of 0] by simp
    with fill c show ?thesis by blast
  qed
  show ?thesis
    using es ei em enc_next ds di dm dec_next by blast
qed

theorem scan_loops_stay_in_bounds_witness:
  "list_all (\<lambda>c. c \<noteq> Write []) [Open, Write [0x41, 0x42, 0x43], Read 16, Write [0x44, 0x45], Release]
   \<and> [0x46, 0x47] \<noteq> ([] :: byte list)
   \<and> (\<exists>s'. dev_calls enc_dev_write enc_init [Open, Write [0x41, 0x42, 0x43], Read 16, Write [0x44, 0x45], Release] = Inr s'
          \<and> enc_inv s' \<and> messageSize s' \<le> 766)
   \<and> (\<exists>s'. dev_calls dec_dev_write dec_init [Open, Write [0x41, 0x42, 0x43], Read 16, Write [0x44, 0x45], Release] = Inr s'
          \<and> dec_inv s' \<and> messageSize s' \<le> 256)"
proof -
  have h: "list_all (\<lambda>c. c \<noteq> Write []) [Open, Write [0x41, 0x42, 0x43], Read 16, Write [0x44, 0x45], Release]"
    by simp
  have n: "[0x46, 0x47] \<noteq> ([] :: byte list)" by simp
  show ?thesis
    using h n scan_loops_stay_in_bounds [OF h n] by blast
qed

end
